theory Spec2Isabelle
  imports Complex_Main "HOL-Library.Product_Lexorder"
begin

section \<open>The graph store\<close>

text \<open>
  The search of \<^verbatim>\<open>src/main.py\<close> (function \<^verbatim>\<open>dijkstra\<close>, lines 35-113) reads a
  NetworkX graph through three operations only: \<^verbatim>\<open>G.nodes()\<close>, \<^verbatim>\<open>G.neighbors(n)\<close> and
  \<^verbatim>\<open>G[u][v]\<close>. NetworkX keeps a graph as a dictionary of dictionaries: node, then
  neighbour, then the data of the edge. For a multigraph the data of a pair of nodes is
  a dictionary from edge keys to attribute dictionaries; for a simple graph it is the
  attribute dictionary itself. The search reads one attribute, \<^verbatim>\<open>'length'\<close>, so an
  attribute dictionary is modelled by its \<^verbatim>\<open>'length'\<close> entry (\<open>None\<close> when the attribute
  is absent). Dictionaries iterate in insertion order, hence association lists.

  Nodes are natural numbers (OpenStreetMap identifiers are integers; the heap compares
  them when two distances are equal), edge keys are natural numbers (NetworkX numbers
  parallel edges 0, 1, 2, ...), and lengths are real numbers: the rounding of Python's
  floats and the value NaN are not modelled.
\<close>

type_synonym node = nat

datatype edata = Multi "(nat \<times> real option) list" | Simple "real option"

type_synonym graph = "(node \<times> (node \<times> edata) list) list"

datatype cost = Finite real | Infinity

datatype error = KeyError node | NetworkXError node

text \<open>\<^verbatim>\<open>G.nodes()\<close>: the keys of the outer dictionary.\<close>

definition nodes :: "graph \<Rightarrow> node list" where
  "nodes G = map fst G"

text \<open>\<^verbatim>\<open>G.neighbors(n)\<close>: the keys of the dictionary of \<open>n\<close>; NetworkX raises
  \<^verbatim>\<open>NetworkXError\<close> for a node that is not in the graph (\<open>None\<close> here, turned into
  the error where the loop calls it).\<close>

definition neighbors :: "graph \<Rightarrow> node \<Rightarrow> node list option" where
  "neighbors G n = (case map_of G n of None \<Rightarrow> None | Some nbrs \<Rightarrow> Some (map fst nbrs))"

text \<open>\<^verbatim>\<open>G[u][v]\<close>: a \<^verbatim>\<open>KeyError\<close> (\<open>None\<close>) when either lookup fails.\<close>

definition edge_data :: "graph \<Rightarrow> node \<Rightarrow> node \<Rightarrow> edata option" where
  "edge_data G u v = (case map_of G u of None \<Rightarrow> None | Some nbrs \<Rightarrow> map_of nbrs v)"

section \<open>The weight of an edge (lines 80-86)\<close>

text \<open>
  First attempt, \<^verbatim>\<open>G[no_atual][vizinho][0]['length']\<close>: the edge with key 0 of a
  multigraph. On a simple graph the index 0 is looked up in the attribute dictionary,
  whose keys are attribute names, and raises \<^verbatim>\<open>KeyError\<close>. \<open>None\<close> is the exception
  that the \<^verbatim>\<open>except (KeyError, IndexError)\<close> clause catches.
\<close>

fun length_key0 :: "edata \<Rightarrow> real option" where
  "length_key0 (Multi ks) = (case map_of ks 0 of None \<Rightarrow> None | Some attrs \<Rightarrow> attrs)"
| "length_key0 (Simple attrs) = None"

text \<open>
  Second attempt, \<^verbatim>\<open>G[no_atual][vizinho]['length']\<close>: the attribute of a simple graph's
  edge. On a multigraph \<^verbatim>\<open>'length'\<close> is looked up among the edge keys and raises
  \<^verbatim>\<open>KeyError\<close>, which the inner \<^verbatim>\<open>except KeyError\<close> turns into \<^verbatim>\<open>continue\<close>.
\<close>

fun length_attr :: "edata \<Rightarrow> real option" where
  "length_attr (Multi ks) = None"
| "length_attr (Simple attrs) = attrs"

text \<open>The two nested \<^verbatim>\<open>try\<close> blocks on the data of one pair of nodes: \<open>Some peso\<close>, or
  \<open>None\<close> where the inner \<^verbatim>\<open>except\<close> clause runs \<^verbatim>\<open>continue\<close>.\<close>

definition edge_length :: "edata \<Rightarrow> real option" where
  "edge_length e = (case length_key0 e of Some w \<Rightarrow> Some w | None \<Rightarrow> length_attr e)"

text \<open>Both attempts evaluate \<^verbatim>\<open>G[no_atual][vizinho]\<close> inside the \<^verbatim>\<open>try\<close>, so a pair without
  data ends in \<^verbatim>\<open>continue\<close> as well.\<close>

definition peso :: "graph \<Rightarrow> node \<Rightarrow> node \<Rightarrow> real option" where
  "peso G no_atual vizinho =
     (case edge_data G no_atual vizinho of None \<Rightarrow> None | Some e \<Rightarrow> edge_length e)"

section \<open>The state of a query\<close>

text \<open>The variables in scope inside \<^verbatim>\<open>dijkstra\<close>: the graph it was passed and the four
  structures it allocates (lines 50-60).\<close>

record state =
  grafo :: graph
  distancias :: "node \<rightharpoonup> cost"
  predecessores :: "node \<rightharpoonup> node option"
  pq :: "(real \<times> node) list"
  visitados :: "node set"

text \<open>\<^verbatim>\<open>distancia < distancias[vizinho]\<close>, a finite number against a label that may be
  \<^verbatim>\<open>float('infinity')\<close>.\<close>

fun less_cost :: "real \<Rightarrow> cost \<Rightarrow> bool" where
  "less_cost x (Finite y) = (x < y)"
| "less_cost x Infinity = True"

text \<open>
  \<^verbatim>\<open>heapq\<close> keeps a binary heap in a Python list. What the search observes of it is
  that \<^verbatim>\<open>heappop\<close> removes and returns a least element, tuples \<^verbatim>\<open>(distance, node)\<close>
  being compared lexicographically; two least elements are equal tuples. The heap is
  modelled by the list of its elements. \<open>heappop\<close> is applied to a non-empty heap only:
  the test of the \<^verbatim>\<open>while\<close> loop comes first.
\<close>

definition heappush :: "(real \<times> node) list \<Rightarrow> real \<times> node \<Rightarrow> (real \<times> node) list" where
  "heappush h x = x # h"

definition heappop :: "(real \<times> node) list \<Rightarrow> (real \<times> node) \<times> (real \<times> node) list" where
  "heappop h = (min_list h, remove1 (min_list h) h)"

text \<open>Lines 50-60. \<^verbatim>\<open>distancias[origem] = 0\<close> adds the key when \<open>origem\<close> is not a node.\<close>

definition init :: "graph \<Rightarrow> node \<Rightarrow> state" where
  "init G origem =
     \<lparr> grafo = G,
       distancias = (map_of (map (\<lambda>n. (n, Infinity)) (nodes G)))(origem \<mapsto> Finite 0),
       predecessores = map_of (map (\<lambda>n. (n, None)) (nodes G)),
       pq = [(0, origem)],
       visitados = {} \<rparr>"

section \<open>The search loop (lines 62-96)\<close>

text \<open>The body of the \<^verbatim>\<open>for\<close> loop, for one neighbour. \<^verbatim>\<open>distancias[vizinho]\<close> is outside
  the \<^verbatim>\<open>try\<close> blocks: a missing key raises.\<close>

definition relax :: "real \<Rightarrow> node \<Rightarrow> node \<Rightarrow> state \<Rightarrow> (error \<times> state) + state" where
  "relax dist_atual no_atual vizinho s =
     (case peso (grafo s) no_atual vizinho of
        None \<Rightarrow> Inr s
      | Some w \<Rightarrow>
          (let distancia = dist_atual + w in
           case distancias s vizinho of
             None \<Rightarrow> Inl (KeyError vizinho, s)
           | Some dv \<Rightarrow>
               if less_cost distancia dv
               then Inr (s\<lparr> distancias := (distancias s)(vizinho \<mapsto> Finite distancia),
                           predecessores := (predecessores s)(vizinho \<mapsto> Some no_atual),
                           pq := heappush (pq s) (distancia, vizinho) \<rparr>)
               else Inr s))"

text \<open>The \<^verbatim>\<open>for\<close> loop over the neighbours; an exception ends it.\<close>

fun relax_all :: "real \<Rightarrow> node \<Rightarrow> node list \<Rightarrow> state \<Rightarrow> (error \<times> state) + state" where
  "relax_all dist_atual no_atual [] s = Inr s"
| "relax_all dist_atual no_atual (vizinho # vs) s =
     (case relax dist_atual no_atual vizinho s of
        Inl e \<Rightarrow> Inl e
      | Inr s' \<Rightarrow> relax_all dist_atual no_atual vs s')"

text \<open>One pass through the body of the \<^verbatim>\<open>while\<close> loop, entered with a non-empty heap:
  it ends in \<^verbatim>\<open>break\<close>, goes back to the loop test, or raises.\<close>

datatype outcome = Break state | Continue state | Raise error state

definition iteration :: "node \<Rightarrow> state \<Rightarrow> outcome" where
  "iteration destino s =
     (case heappop (pq s) of
        ((dist_atual, no_atual), rest) \<Rightarrow>
          (let s1 = s\<lparr> pq := rest \<rparr> in
           if no_atual = destino then Break s1
           else if no_atual \<in> visitados s1 then Continue s1
           else
             (let s2 = s1\<lparr> visitados := insert no_atual (visitados s1) \<rparr> in
              case neighbors (grafo s2) no_atual of
                None \<Rightarrow> Raise (NetworkXError no_atual) s2
              | Some vs \<Rightarrow>
                  (case relax_all dist_atual no_atual vs s2 of
                     Inl (e, s3) \<Rightarrow> Raise e s3
                   | Inr s3 \<Rightarrow> Continue s3))))"

function loop :: "node \<Rightarrow> state \<Rightarrow> (error \<times> state) + state" where
  "loop destino s =
     (if pq s = [] then Inr s
      else (case iteration destino s of
              Break s' \<Rightarrow> Inr s'
            | Raise e s' \<Rightarrow> Inl (e, s')
            | Continue s' \<Rightarrow> loop destino s'))"
  by pat_completeness auto

section \<open>The path (lines 98-113)\<close>

text \<open>The \<^verbatim>\<open>while no_atual is not None\<close> loop. Nothing bounds it: on a cycle of
  predecessors it appends for ever, so it is a partial function and \<open>None\<close> is "does
  not return".\<close>

partial_function (option) reconstruct ::
  "state \<Rightarrow> node option \<Rightarrow> node list \<Rightarrow> ((error \<times> state) + node list) option" where
  "reconstruct s no_atual caminho =
     (case no_atual of
        None \<Rightarrow> Some (Inr caminho)
      | Some n \<Rightarrow>
          (case predecessores s n of
             None \<Rightarrow> Some (Inl (KeyError n, s))
           | Some p \<Rightarrow> reconstruct s p (caminho @ [n])))"

definition finish ::
  "node \<Rightarrow> node \<Rightarrow> state \<Rightarrow> ((error \<times> state) + ((node list \<times> cost) \<times> state)) option" where
  "finish origem destino s =
     (case predecessores s destino of
        None \<Rightarrow> Some (Inl (KeyError destino, s))
      | Some p \<Rightarrow>
          if p = None \<and> destino \<noteq> origem then Some (Inr (([], Infinity), s))
          else
            (case reconstruct s (Some destino) [] of
               None \<Rightarrow> None
             | Some (Inl e) \<Rightarrow> Some (Inl e)
             | Some (Inr caminho) \<Rightarrow>
                 (case distancias s destino of
                    None \<Rightarrow> Some (Inl (KeyError destino, s))
                  | Some c \<Rightarrow> Some (Inr ((rev caminho, c), s)))))"

text \<open>A call: what it raises or returns, with the state it ends in.\<close>

definition dijkstra_run ::
  "graph \<Rightarrow> node \<Rightarrow> node \<Rightarrow> ((error \<times> state) + ((node list \<times> cost) \<times> state)) option" where
  "dijkstra_run G origem destino =
     (case loop destino (init G origem) of
        Inl e \<Rightarrow> Some (Inl e)
      | Inr s \<Rightarrow> finish origem destino s)"

text \<open>What the caller sees: the exception, or the pair \<^verbatim>\<open>(caminho, custo)\<close>.\<close>

definition dijkstra :: "graph \<Rightarrow> node \<Rightarrow> node \<Rightarrow> (error + (node list \<times> cost)) option" where
  "dijkstra G origem destino = map_option (map_sum fst fst) (dijkstra_run G origem destino)"

declare reconstruct.simps [code]

section \<open>Graphs, walks and their cost\<close>

text \<open>What NetworkX guarantees of every graph it builds: a neighbour is a node. (A graph made
  by \<^verbatim>\<open>to_undirected\<close> is symmetric as well; no result below needs it.)\<close>

definition wf_graph :: "graph \<Rightarrow> bool" where
  "wf_graph G = (\<forall>(u, nbrs) \<in> set G. \<forall>(v, e) \<in> set nbrs. v \<in> set (nodes G))"

text \<open>No length that the search can read is negative.\<close>

definition nonneg_lengths :: "graph \<Rightarrow> bool" where
  "nonneg_lengths G =
     (\<forall>(u, nbrs) \<in> set G. \<forall>(v, e) \<in> set nbrs.
        case edge_length e of None \<Rightarrow> True | Some w \<Rightarrow> 0 \<le> w)"

text \<open>A walk as the search sees the graph: a non-empty sequence of nodes, each step over a
  pair of nodes whose data yield a length; its cost is the sum of these lengths.\<close>

fun walk :: "graph \<Rightarrow> node list \<Rightarrow> bool" where
  "walk G [] = False"
| "walk G [v] = True"
| "walk G (u # v # p) = (peso G u v \<noteq> None \<and> walk G (v # p))"

fun walk_cost :: "graph \<Rightarrow> node list \<Rightarrow> real" where
  "walk_cost G (u # v # p) = (case peso G u v of None \<Rightarrow> 0 | Some w \<Rightarrow> w) + walk_cost G (v # p)"
| "walk_cost G p = 0"

definition reach :: "graph \<Rightarrow> node \<Rightarrow> node \<Rightarrow> bool" where
  "reach G a b = (\<exists>p. walk G p \<and> hd p = a \<and> last p = b)"

text \<open>A path in the sense of the graph alone: consecutive nodes are adjacent, whatever the
  attributes of the edges between them.\<close>

fun connected_pairs :: "graph \<Rightarrow> node list \<Rightarrow> bool" where
  "connected_pairs G (u # v # p) = (edge_data G u v \<noteq> None \<and> connected_pairs G (v # p))"
| "connected_pairs G p = True"

definition reachable :: "graph \<Rightarrow> node \<Rightarrow> node \<Rightarrow> bool" where
  "reachable G a b = (\<exists>p. p \<noteq> [] \<and> connected_pairs G p \<and> hd p = a \<and> last p = b)"




section \<open>Invariants of the search\<close>

text \<open>The list of nodes met when the predecessor links are followed from \<open>v\<close> back to a node
  without predecessor, first node first.\<close>

inductive pred_chain :: "(node \<rightharpoonup> node option) \<Rightarrow> node \<Rightarrow> node list \<Rightarrow> bool" where
  root: "P v = Some None \<Longrightarrow> pred_chain P v [v]"
| link: "P v = Some (Some u) \<Longrightarrow> pred_chain P u p \<Longrightarrow> pred_chain P v (p @ [v])"

text \<open>What holds at every test of the \<^verbatim>\<open>while\<close> loop whatever the lengths are: the
  dictionaries keep the nodes as their keys, the heap holds nodes, and a predecessor is a node
  with a readable length to its successor, reached from the origin.\<close>

definition search_inv :: "graph \<Rightarrow> node \<Rightarrow> state \<Rightarrow> bool" where
  "search_inv G origem s \<longleftrightarrow>
     grafo s = G \<and>
     dom (distancias s) = set (nodes G) \<and>
     dom (predecessores s) = set (nodes G) \<and>
     (\<forall>e v. (e, v) \<in> set (pq s) \<longrightarrow> v \<in> set (nodes G) \<and> reach G origem v) \<and>
     (\<forall>v u. predecessores s v = Some (Some u) \<longrightarrow>
        u \<in> set (nodes G) \<and> peso G u v \<noteq> None \<and> reach G origem u)"

text \<open>
  The invariant of Dijkstra's algorithm with lazy deletion, for lengths that are not negative.
  \<open>X\<close> is the set of visited nodes whose neighbours have all been relaxed: all visited nodes
  at the loop test, all but the current node inside the \<^verbatim>\<open>for\<close> loop.
\<close>

definition dijkstra_inv :: "graph \<Rightarrow> node \<Rightarrow> node set \<Rightarrow> state \<Rightarrow> bool" where
  "dijkstra_inv G origem X s \<longleftrightarrow>
     grafo s = G \<and> X \<subseteq> visitados s \<and>
     distancias s origem = Some (Finite 0) \<and>
     (\<forall>e v. (e, v) \<in> set (pq s) \<longrightarrow>
        0 \<le> e \<and> (\<exists>c. distancias s v = Some (Finite c) \<and> c \<le> e)) \<and>
     (\<forall>v c. v \<notin> visitados s \<and> distancias s v = Some (Finite c) \<longrightarrow> (c, v) \<in> set (pq s)) \<and>
     (\<forall>x. x \<in> visitados s \<longrightarrow>
        (\<exists>c. distancias s x = Some (Finite c) \<and> (\<forall>e v. (e, v) \<in> set (pq s) \<longrightarrow> c \<le> e))) \<and>
     (\<forall>x v w c. x \<in> X \<and> peso G x v = Some w \<and> distancias s x = Some (Finite c) \<longrightarrow>
        (\<exists>c'. distancias s v = Some (Finite c') \<and> c' \<le> c + w)) \<and>
     (\<forall>v c. distancias s v = Some (Finite c) \<longrightarrow>
        (\<exists>p. pred_chain (predecessores s) v p \<and> hd p = origem \<and> walk G p \<and>
             walk_cost G p = c \<and> set (butlast p) \<subseteq> visitados s)) \<and>
     (\<forall>v. distancias s v = Some Infinity \<longrightarrow> predecessores s v = Some None)"


section \<open>Example graphs\<close>

text \<open>The road network of the specification's end-to-end examples: A, B, C, D, E are 0 to 4,
  with A-B of length 1, B-D of length 1, A-C of length 5, C-D of length 1, and E isolated;
  a multigraph as OSMnx builds it, every edge under key 0.\<close>

definition G_exemplo :: graph where
  "G_exemplo =
     [(0, [(1, Multi [(0, Some 1)]), (2, Multi [(0, Some 5)])]),
      (1, [(0, Multi [(0, Some 1)]), (3, Multi [(0, Some 1)])]),
      (2, [(0, Multi [(0, Some 5)]), (3, Multi [(0, Some 1)])]),
      (3, [(1, Multi [(0, Some 1)]), (2, Multi [(0, Some 1)])]),
      (4, [])]"



text \<open>A simple graph with a negative length on its first edge.\<close>

definition G_negativo :: graph where
  "G_negativo =
     [(0, [(1, Simple (Some (- 1)))]),
      (1, [(0, Simple (Some (- 1))), (2, Simple (Some 5))]),
      (2, [(1, Simple (Some 5))])]"

text \<open>A directed graph (NetworkX's \<^verbatim>\<open>DiGraph\<close>, whose \<^verbatim>\<open>neighbors\<close> are the successors) with
  one negative length, from 2 to 1.\<close>

definition G_dirigido :: graph where
  "G_dirigido =
     [(0, [(1, Simple (Some 1)), (2, Simple (Some 5))]),
      (1, [(3, Simple (Some 10))]),
      (2, [(1, Simple (Some (- 10)))]),
      (3, [])]"

text \<open>A simple graph whose edge between 0 and 1 has no \<^verbatim>\<open>'length'\<close> attribute.\<close>

definition G_sem_peso :: graph where
  "G_sem_peso =
     [(0, [(1, Simple None), (2, Simple (Some 7))]),
      (1, [(0, Simple None)]),
      (2, [(0, Simple (Some 7))])]"

section \<open>The heap\<close>

lemma heappop_member: "h \<noteq> [] \<Longrightarrow> fst (heappop h) \<in> set h"
  by (simp add: heappop_def min_list_Min)



lemma heappop_rest_subset: "set (snd (heappop h)) \<subseteq> set h"
  by (simp add: heappop_def set_remove1_subset)

lemma heappop_length: "h \<noteq> [] \<Longrightarrow> length (snd (heappop h)) < length h"
proof -
  assume h: "h \<noteq> []"
  then have "min_list h \<in> set h" by (simp add: min_list_Min)
  then have "length (remove1 (min_list h) h) = length h - 1"
    by (simp add: length_remove1)
  with h show ?thesis by (cases h) (simp_all add: heappop_def)
qed

lemma heappop_single: "heappop [x] = (x, [])"
  by (simp add: heappop_def)


section \<open>What a relaxation leaves alone\<close>

lemma relax_frame:
  "relax d u v s = Inr s' \<Longrightarrow> grafo s' = grafo s \<and> visitados s' = visitados s"
  by (auto simp: relax_def Let_def split: option.splits if_splits)

lemma relax_raise: "relax d u v s = Inl (e, s') \<Longrightarrow> s' = s \<and> e = KeyError v"
  by (auto simp: relax_def Let_def split: option.splits if_splits)

lemma relax_all_frame:
  "relax_all d u vs s = Inr s' \<Longrightarrow> grafo s' = grafo s \<and> visitados s' = visitados s"
proof (induction vs arbitrary: s)
  case Nil
  then show ?case by simp
next
  case (Cons v vs)
  then obtain s1 where s1: "relax d u v s = Inr s1" "relax_all d u vs s1 = Inr s'"
    by (auto split: sum.splits)
  from Cons.IH [OF s1(2)] relax_frame [OF s1(1)] show ?case by simp
qed

lemma relax_all_raise_frame:
  "relax_all d u vs s = Inl (e, s') \<Longrightarrow> grafo s' = grafo s \<and> visitados s' = visitados s"
proof (induction vs arbitrary: s)
  case Nil
  then show ?case by simp
next
  case (Cons v vs)
  show ?case
  proof (cases "relax d u v s")
    case (Inl a)
    with Cons.prems have "a = (e, s')" by simp
    with Inl relax_raise [of d u v s e s'] show ?thesis by simp
  next
    case (Inr s1)
    with Cons.prems have "relax_all d u vs s1 = Inl (e, s')" by simp
    from Cons.IH [OF this] relax_frame [OF Inr] show ?thesis by simp
  qed
qed

lemma neighbors_Some_node: "neighbors G n = Some vs \<Longrightarrow> n \<in> set (nodes G)"
  by (auto simp: neighbors_def nodes_def split: option.splits dest: map_of_SomeD intro: rev_image_eqI)

text \<open>The three ways through the body of the loop.\<close>

lemma iteration_cases:
  assumes "heappop (pq s) = ((d, u), rest)"
  shows "iteration destino s =
     (if u = destino then Break (s\<lparr>pq := rest\<rparr>)
      else if u \<in> visitados s then Continue (s\<lparr>pq := rest\<rparr>)
      else (case neighbors (grafo s) u of
              None \<Rightarrow> Raise (NetworkXError u) (s\<lparr>pq := rest, visitados := insert u (visitados s)\<rparr>)
            | Some vs \<Rightarrow>
                (case relax_all d u vs (s\<lparr>pq := rest, visitados := insert u (visitados s)\<rparr>) of
                   Inl (e, s3) \<Rightarrow> Raise e s3
                 | Inr s3 \<Rightarrow> Continue s3)))"
  using assms by (simp add: iteration_def Let_def)

lemma iteration_Continue:
  assumes "iteration destino s = Continue s'" and "heappop (pq s) = ((d, u), rest)"
  shows "u \<noteq> destino \<and>
     (u \<in> visitados s \<and> s' = s\<lparr>pq := rest\<rparr> \<or>
      u \<notin> visitados s \<and> (\<exists>vs. neighbors (grafo s) u = Some vs \<and>
         relax_all d u vs (s\<lparr>pq := rest, visitados := insert u (visitados s)\<rparr>) = Inr s'))"
  using assms(1) unfolding iteration_cases [OF assms(2)]
  by (auto split: if_splits option.splits sum.splits)

section \<open>The search loop ends\<close>

text \<open>Every pass either drops an entry of the heap and visits nothing, or visits a node
  of the graph that was not visited before.\<close>

lemma iteration_decreases:
  assumes "pq s \<noteq> []" and "iteration destino s = Continue s'"
  shows "((destino, s'), (destino, s)) \<in>
     inv_image (less_than <*lex*> less_than)
       (\<lambda>(d, t). (card (set (nodes (grafo t)) - visitados t), length (pq t)))"
proof -
  obtain d u rest where pop: "heappop (pq s) = ((d, u), rest)"
    by (metis surj_pair)
  then have rest: "rest = snd (heappop (pq s))" by simp
  from iteration_Continue [OF assms(2) pop]
  consider (stale) "u \<in> visitados s" "s' = s\<lparr>pq := rest\<rparr>"
    | (fresh) vs where "u \<notin> visitados s" "neighbors (grafo s) u = Some vs"
        "relax_all d u vs (s\<lparr>pq := rest, visitados := insert u (visitados s)\<rparr>) = Inr s'"
    by blast
  then show ?thesis
  proof cases
    case stale
    then show ?thesis using heappop_length [OF assms(1)] rest by simp
  next
    case fresh
    from relax_all_frame [OF fresh(3)]
    have fr: "grafo s' = grafo s" "visitados s' = insert u (visitados s)" by simp_all
    have "u \<in> set (nodes (grafo s)) - visitados s"
      using neighbors_Some_node [OF fresh(2)] fresh(1) by simp
    then have "card (set (nodes (grafo s)) - insert u (visitados s))
        < card (set (nodes (grafo s)) - visitados s)"
      by (metis Diff_insert List.finite_set card_Diff1_less finite_Diff)
    then show ?thesis using fr by simp
  qed
qed

termination loop
proof (relation "inv_image (less_than <*lex*> less_than)
       (\<lambda>(d, t). (card (set (nodes (grafo t)) - visitados t), length (pq t)))")
  show "wf (inv_image (less_than <*lex*> less_than)
       (\<lambda>(d :: node, t). (card (set (nodes (grafo t)) - visitados t), length (pq t))))"
    by (intro wf_inv_image wf_lex_prod wf_less_than)
next
  fix destino s s'
  assume "pq s \<noteq> []" and "iteration destino s = Continue s'"
  then show "((destino, s'), (destino, s)) \<in>
     inv_image (less_than <*lex*> less_than)
       (\<lambda>(d, t). (card (set (nodes (grafo t)) - visitados t), length (pq t)))"
    by (rule iteration_decreases)
qed

declare loop.simps [simp del]

section \<open>Walks\<close>

lemma walk_nonempty: "walk G p \<Longrightarrow> p \<noteq> []"
  by (cases p) auto

lemma walk_snoc: "walk G (p @ [v]) \<longleftrightarrow> p = [] \<or> walk G p \<and> peso G (last p) v \<noteq> None"
  by (induction G p rule: walk.induct) auto


lemma walk_connected: "walk G p \<Longrightarrow> connected_pairs G p"
  by (induction G p rule: walk.induct) (auto simp: peso_def split: option.splits)

lemma reach_refl: "reach G a a"
  unfolding reach_def by (rule exI [of _ "[a]"]) simp

lemma reach_step:
  assumes "reach G a u" and "peso G u v \<noteq> None"
  shows "reach G a v"
proof -
  from assms(1) obtain p where p: "walk G p" "hd p = a" "last p = u"
    by (auto simp: reach_def)
  then have "p \<noteq> []" by (auto dest: walk_nonempty)
  with p assms(2) have "walk G (p @ [v]) \<and> hd (p @ [v]) = a \<and> last (p @ [v]) = v"
    by (simp add: walk_snoc)
  then show ?thesis unfolding reach_def by blast
qed

lemma reach_reachable: "reach G a b \<Longrightarrow> reachable G a b"
  unfolding reach_def reachable_def by (blast dest: walk_connected walk_nonempty)




lemma wf_neighbor:
  assumes "wf_graph G" "neighbors G u = Some vs" "v \<in> set vs"
  shows "v \<in> set (nodes G)"
proof -
  from assms(2) obtain nbrs where n: "map_of G u = Some nbrs" "vs = map fst nbrs"
    by (auto simp: neighbors_def split: option.splits)
  with assms(3) obtain e where "(v, e) \<in> set nbrs" by auto
  moreover from n have "(u, nbrs) \<in> set G" by (auto dest: map_of_SomeD)
  ultimately show ?thesis using assms(1) by (fastforce simp: wf_graph_def)
qed

lemma node_neighbors: "u \<in> set (nodes G) \<Longrightarrow> \<exists>vs. neighbors G u = Some vs"
  by (cases "map_of G u") (auto simp: neighbors_def nodes_def map_of_eq_None_iff)

section \<open>Chains of predecessors\<close>





section \<open>Following the predecessors\<close>

lemma reconstruct_chain:
  "pred_chain (predecessores s) v p \<Longrightarrow> reconstruct s (Some v) acc = Some (Inr (acc @ rev p))"
proof (induction "predecessores s" v p arbitrary: acc rule: pred_chain.induct)
  case (root v)
  then show ?case by (simp add: reconstruct.simps [of s "Some v"] reconstruct.simps [of s None])
next
  case (link v u p)
  then show ?case by (simp add: reconstruct.simps [of s "Some v"])
qed

lemma reconstruct_result:
  assumes "reconstruct s cur acc = Some r"
  shows "(cur = None \<longrightarrow> r = Inr acc) \<and>
     (\<forall>v l. cur = Some v \<longrightarrow> r = Inr l \<longrightarrow>
        (\<exists>p. pred_chain (predecessores s) v p \<and> l = acc @ rev p)) \<and>
     (\<forall>e s'. r = Inl (e, s') \<longrightarrow> s' = s)"
proof (rule reconstruct.raw_induct [where P = "\<lambda>s cur acc r. (cur = None \<longrightarrow> r = Inr acc) \<and>
     (\<forall>v l. cur = Some v \<longrightarrow> r = Inr l \<longrightarrow>
        (\<exists>p. pred_chain (predecessores s) v p \<and> l = acc @ rev p)) \<and>
     (\<forall>e s'. r = Inl (e, s') \<longrightarrow> s' = s)", OF _ assms])
  fix rec :: "state \<Rightarrow> node option \<Rightarrow> node list \<Rightarrow> ((error \<times> state) + node list) option"
    and s :: state and cur acc r
  assume ih: "\<And>s cur acc r. rec s cur acc = Some r \<Longrightarrow>
     (cur = None \<longrightarrow> r = Inr acc) \<and>
     (\<forall>v l. cur = Some v \<longrightarrow> r = Inr l \<longrightarrow>
        (\<exists>p. pred_chain (predecessores s) v p \<and> l = acc @ rev p)) \<and>
     (\<forall>e s'. r = Inl (e, s') \<longrightarrow> s' = s)"
  assume body: "(case cur of None \<Rightarrow> Some (Inr acc)
     | Some n \<Rightarrow> (case predecessores s n of None \<Rightarrow> Some (Inl (KeyError n, s))
                  | Some p \<Rightarrow> rec s p (acc @ [n]))) = Some r"
  show "(cur = None \<longrightarrow> r = Inr acc) \<and>
     (\<forall>v l. cur = Some v \<longrightarrow> r = Inr l \<longrightarrow>
        (\<exists>p. pred_chain (predecessores s) v p \<and> l = acc @ rev p)) \<and>
     (\<forall>e s'. r = Inl (e, s') \<longrightarrow> s' = s)"
  proof (cases cur)
    case None
    with body show ?thesis by auto
  next
    case (Some n)
    note cur = this
    show ?thesis
    proof (cases "predecessores s n")
      case None
      with body cur show ?thesis by auto
    next
      case (Some q)
      with body cur have call: "rec s q (acc @ [n]) = Some r" by simp
      note step = ih [OF call]
      show ?thesis
      proof (cases q)
        case None
        with step have "r = Inr (acc @ [n])" by simp
        moreover have "pred_chain (predecessores s) n [n]"
          using Some None by (auto intro: pred_chain.root)
        ultimately show ?thesis using cur by auto
      next
        case (Some u)
        have "\<exists>p. pred_chain (predecessores s) n p \<and> l = acc @ rev p" if "r = Inr l" for l
        proof -
          from step Some that obtain p where
            p: "pred_chain (predecessores s) u p" "l = (acc @ [n]) @ rev p" by blast
          from \<open>predecessores s n = Some q\<close> Some p(1)
          have "pred_chain (predecessores s) n (p @ [n])" by (auto intro: pred_chain.link)
          with p(2) show ?thesis by auto
        qed
        with step cur show ?thesis by auto
      qed
    qed
  qed
qed

text \<open>When every predecessor is a key of the dictionary, the loop raises no \<^verbatim>\<open>KeyError\<close>.\<close>

lemma reconstruct_no_raise:
  assumes "reconstruct s cur acc = Some r"
    and "\<forall>v u. predecessores s v = Some (Some u) \<longrightarrow> u \<in> dom (predecessores s)"
    and "\<forall>n. cur = Some n \<longrightarrow> n \<in> dom (predecessores s)"
  shows "\<exists>l. r = Inr l"
proof -
  have "(\<forall>v u. predecessores s v = Some (Some u) \<longrightarrow> u \<in> dom (predecessores s)) \<longrightarrow>
        (\<forall>n. cur = Some n \<longrightarrow> n \<in> dom (predecessores s)) \<longrightarrow> (\<exists>l. r = Inr l)"
  proof (rule reconstruct.raw_induct [where P = "\<lambda>s cur acc r.
        (\<forall>v u. predecessores s v = Some (Some u) \<longrightarrow> u \<in> dom (predecessores s)) \<longrightarrow>
        (\<forall>n. cur = Some n \<longrightarrow> n \<in> dom (predecessores s)) \<longrightarrow> (\<exists>l. r = Inr l)", OF _ assms(1)])
    fix rec :: "state \<Rightarrow> node option \<Rightarrow> node list \<Rightarrow> ((error \<times> state) + node list) option"
      and s :: state and cur acc r
    assume ih: "\<And>s cur acc r. rec s cur acc = Some r \<Longrightarrow>
        (\<forall>v u. predecessores s v = Some (Some u) \<longrightarrow> u \<in> dom (predecessores s)) \<longrightarrow>
        (\<forall>n. cur = Some n \<longrightarrow> n \<in> dom (predecessores s)) \<longrightarrow> (\<exists>l. r = Inr l)"
    assume body: "(case cur of None \<Rightarrow> Some (Inr acc)
       | Some n \<Rightarrow> (case predecessores s n of None \<Rightarrow> Some (Inl (KeyError n, s))
                    | Some p \<Rightarrow> rec s p (acc @ [n]))) = Some r"
    show "(\<forall>v u. predecessores s v = Some (Some u) \<longrightarrow> u \<in> dom (predecessores s)) \<longrightarrow>
        (\<forall>n. cur = Some n \<longrightarrow> n \<in> dom (predecessores s)) \<longrightarrow> (\<exists>l. r = Inr l)"
    proof (intro impI)
      assume closed: "\<forall>v u. predecessores s v = Some (Some u) \<longrightarrow> u \<in> dom (predecessores s)"
        and key: "\<forall>n. cur = Some n \<longrightarrow> n \<in> dom (predecessores s)"
      show "\<exists>l. r = Inr l"
      proof (cases cur)
        case None
        with body show ?thesis by auto
      next
        case (Some n)
        with key obtain q where q: "predecessores s n = Some q" by auto
        with body Some have call: "rec s q (acc @ [n]) = Some r" by simp
        have "\<forall>m. q = Some m \<longrightarrow> m \<in> dom (predecessores s)"
          using q closed by auto
        with ih [OF call] closed show ?thesis by blast
      qed
    qed
  qed
  with assms(2,3) show ?thesis by blast
qed

text \<open>Two nodes that are each other's predecessor: the loop that follows the predecessors
  from one of them does not end.\<close>

lemma reconstruct_cycle:
  assumes "predecessores s a = Some (Some b)" and "predecessores s b = Some (Some a)"
  shows "reconstruct s (Some a) acc = None"
proof (cases "reconstruct s (Some a) acc")
  case None
  then show ?thesis .
next
  case (Some r)
  have "s' = s \<longrightarrow> cur \<noteq> Some a \<and> cur \<noteq> Some b"
    if "reconstruct s' cur acc' = Some r'" for s' cur acc' r'
  proof (rule reconstruct.raw_induct [where P = "\<lambda>s' cur acc' r'.
      s' = s \<longrightarrow> cur \<noteq> Some a \<and> cur \<noteq> Some b", OF _ that])
    fix rec :: "state \<Rightarrow> node option \<Rightarrow> node list \<Rightarrow> ((error \<times> state) + node list) option"
      and s' :: state and cur acc' r'
    assume ih: "\<And>s' cur acc' r'. rec s' cur acc' = Some r' \<Longrightarrow>
        s' = s \<longrightarrow> cur \<noteq> Some a \<and> cur \<noteq> Some b"
    assume body: "(case cur of None \<Rightarrow> Some (Inr acc')
       | Some n \<Rightarrow> (case predecessores s' n of None \<Rightarrow> Some (Inl (KeyError n, s'))
                    | Some p \<Rightarrow> rec s' p (acc' @ [n]))) = Some r'"
    show "s' = s \<longrightarrow> cur \<noteq> Some a \<and> cur \<noteq> Some b"
    proof (intro impI conjI notI)
      assume "s' = s" "cur = Some a"
      with body assms(1) have "rec s (Some b) (acc' @ [a]) = Some r'" by simp
      from ih [OF this] show False by simp
    next
      assume "s' = s" "cur = Some b"
      with body assms(2) have "rec s (Some a) (acc' @ [b]) = Some r'" by simp
      from ih [OF this] show False by simp
    qed
  qed
  from this [OF Some] show ?thesis by simp
qed

section \<open>One relaxation, one pass, the whole loop\<close>

lemma relax_Inr_cases:
  assumes "relax d u v s = Inr s'"
  obtains (skip) "s' = s"
  | (update) w dv where "peso (grafo s) u v = Some w" "distancias s v = Some dv"
      "less_cost (d + w) dv"
      "s' = s\<lparr> distancias := (distancias s)(v \<mapsto> Finite (d + w)),
                predecessores := (predecessores s)(v \<mapsto> Some u),
                pq := (d + w, v) # pq s \<rparr>"
  using assms
  by (auto simp: relax_def Let_def heappush_def split: option.splits if_splits)

lemma relax_all_rule:
  assumes "J s" and "relax_all d u vs s = Inr s'"
    and "\<And>v t t'. v \<in> set vs \<Longrightarrow> J t \<Longrightarrow> relax d u v t = Inr t' \<Longrightarrow> J t'"
  shows "J s'"
  using assms
proof (induction vs arbitrary: s)
  case Nil
  then show ?case by simp
next
  case (Cons v vs)
  from Cons.prems(2) obtain s1 where s1: "relax d u v s = Inr s1" "relax_all d u vs s1 = Inr s'"
    by (auto split: sum.splits)
  have "J s1" using Cons.prems(3) [OF _ Cons.prems(1) s1(1)] by simp
  then show ?case using s1(2) Cons.prems(3) by (intro Cons.IH [of s1]) auto
qed

lemma relax_all_total:
  assumes "J s"
    and "\<And>v t t'. v \<in> set vs \<Longrightarrow> J t \<Longrightarrow> relax d u v t = Inr t' \<Longrightarrow> J t'"
    and "\<And>v t. v \<in> set vs \<Longrightarrow> J t \<Longrightarrow> \<exists>t'. relax d u v t = Inr t'"
  shows "\<exists>s'. relax_all d u vs s = Inr s'"
  using assms
proof (induction vs arbitrary: s)
  case Nil
  then show ?case by simp
next
  case (Cons v vs)
  from Cons.prems(3) [of v s] Cons.prems(1) obtain s1 where s1: "relax d u v s = Inr s1" by auto
  have "J s1" using Cons.prems(2) [OF _ Cons.prems(1) s1] by simp
  then have "\<exists>s'. relax_all d u vs s1 = Inr s'"
    using Cons.prems(2,3) by (intro Cons.IH [of s1]) auto
  with s1 show ?case by simp
qed

lemma iteration_Break:
  assumes "iteration destino s = Break s'" and "heappop (pq s) = ((d, u), rest)"
  shows "u = destino \<and> s' = s\<lparr>pq := rest\<rparr>"
  using assms(1) unfolding iteration_cases [OF assms(2)]
  by (auto split: if_splits option.splits sum.splits)

lemma iteration_Raise:
  assumes "iteration destino s = Raise e s'" and "heappop (pq s) = ((d, u), rest)"
  shows "u \<noteq> destino \<and> u \<notin> visitados s \<and>
     (neighbors (grafo s) u = None \<and> e = NetworkXError u \<and>
        s' = s\<lparr>pq := rest, visitados := insert u (visitados s)\<rparr> \<or>
      (\<exists>vs. neighbors (grafo s) u = Some vs \<and>
         relax_all d u vs (s\<lparr>pq := rest, visitados := insert u (visitados s)\<rparr>) = Inl (e, s')))"
  using assms(1) unfolding iteration_cases [OF assms(2)]
  by (auto split: if_splits option.splits sum.splits)

text \<open>How the loop is left, for a property \<open>I\<close> that every pass preserves: the heap is empty,
  or the last pass ended in \<^verbatim>\<open>break\<close>, or it raised.\<close>

lemma loop_exit:
  assumes "I s"
    and "\<And>t t'. I t \<Longrightarrow> pq t \<noteq> [] \<Longrightarrow> iteration destino t = Continue t' \<Longrightarrow> I t'"
  shows "\<exists>t. I t \<and>
     (pq t = [] \<and> loop destino s = Inr t \<or>
      pq t \<noteq> [] \<and> (\<exists>s'. iteration destino t = Break s' \<and> loop destino s = Inr s') \<or>
      pq t \<noteq> [] \<and> (\<exists>e s'. iteration destino t = Raise e s' \<and> loop destino s = Inl (e, s')))"
  using assms
proof (induction destino s rule: loop.induct)
  case (1 dst s)
  note pass = "1.prems"(2)
  show ?case
  proof (cases "pq s = []")
    case True
    with "1.prems"(1) show ?thesis by (auto simp: loop.simps [of dst s])
  next
    case False
    show ?thesis
    proof (cases "iteration dst s")
      case (Break s')
      with False "1.prems"(1) show ?thesis by (auto simp: loop.simps [of dst s])
    next
      case (Raise e s')
      with False "1.prems"(1) show ?thesis by (auto simp: loop.simps [of dst s])
    next
      case (Continue s')
      have "I s'" using pass [OF "1.prems"(1) False Continue] .
      then have "\<exists>t. I t \<and>
         (pq t = [] \<and> loop dst s' = Inr t \<or>
          pq t \<noteq> [] \<and> (\<exists>s''. iteration dst t = Break s'' \<and> loop dst s' = Inr s'') \<or>
          pq t \<noteq> [] \<and> (\<exists>e s''. iteration dst t = Raise e s'' \<and> loop dst s' = Inl (e, s'')))"
        by (rule "1.IH" [OF False Continue]) (rule pass, assumption+)
      moreover have "loop dst s = loop dst s'"
        using False Continue by (simp add: loop.simps [of dst s])
      ultimately show ?thesis by simp
    qed
  qed
qed

section \<open>The initial state and the first pass\<close>

lemma init_lookup:
  "n \<in> set ns \<Longrightarrow> map_of (map (\<lambda>n. (n, c)) ns) n = Some c"
  by (induction ns) auto

lemma init_lookup_None:
  "n \<notin> set ns \<Longrightarrow> map_of (map (\<lambda>n. (n, c)) ns) n = None"
  by (induction ns) auto

lemma loop_first_break:
  "loop origem (init G origem) = Inr ((init G origem)\<lparr>pq := []\<rparr>)"
proof -
  have "heappop (pq (init G origem)) = ((0, origem), [])"
    by (simp add: init_def heappop_single)
  from iteration_cases [OF this, of origem]
  have "iteration origem (init G origem) = Break ((init G origem)\<lparr>pq := []\<rparr>)" by simp
  moreover have "pq (init G origem) \<noteq> []" by (simp add: init_def)
  ultimately show ?thesis by (simp add: loop.simps [of origem "init G origem"])
qed

section \<open>The invariant that needs nothing of the lengths\<close>

lemma search_inv_init: "origem \<in> set (nodes G) \<Longrightarrow> search_inv G origem (init G origem)"
proof -
  assume o: "origem \<in> set (nodes G)"
  have "dom (map_of (map (\<lambda>n. (n, Infinity)) (nodes G))) = set (nodes G)"
    by (auto simp: dom_map_of_conv_image_fst image_image)
  moreover have "dom (map_of (map (\<lambda>n. (n, None :: node option)) (nodes G))) = set (nodes G)"
    by (auto simp: dom_map_of_conv_image_fst image_image)
  moreover have "map_of (map (\<lambda>n. (n, None :: node option)) (nodes G)) v \<noteq> Some (Some u)" for v u
    by (auto dest!: map_of_SomeD)
  ultimately show ?thesis
    using o unfolding search_inv_def init_def by (auto simp: reach_refl)
qed

lemma search_inv_pop:
  assumes "search_inv G origem s" and "set rest \<subseteq> set (pq s)"
  shows "search_inv G origem (s\<lparr>pq := rest, visitados := V\<rparr>)"
    and "search_inv G origem (s\<lparr>pq := rest\<rparr>)"
  using assms unfolding search_inv_def by auto

lemma search_inv_relax:
  assumes inv: "search_inv G origem s" and u: "u \<in> set (nodes G)" "reach G origem u"
    and step: "relax d u v s = Inr s'"
  shows "search_inv G origem s'"
  using step
proof (cases rule: relax_Inr_cases)
  case skip
  with inv show ?thesis by simp
next
  case (update w dv)
  from inv have g: "grafo s = G" by (simp add: search_inv_def)
  from update(1) g have edge: "peso G u v \<noteq> None" by simp
  with u(2) have rv: "reach G origem v" by (rule reach_step)
  from update(2) inv have v: "v \<in> set (nodes G)" by (auto simp: search_inv_def)
  have "dom ((distancias s)(v \<mapsto> Finite (d + w))) = set (nodes G)"
    using inv v by (auto simp: search_inv_def)
  moreover have "dom ((predecessores s)(v \<mapsto> Some u)) = set (nodes G)"
    using inv v by (auto simp: search_inv_def)
  moreover have "\<forall>e x. (e, x) \<in> set ((d + w, v) # pq s) \<longrightarrow> x \<in> set (nodes G) \<and> reach G origem x"
    using inv v rv by (auto simp: search_inv_def)
  moreover have "\<forall>x y. ((predecessores s)(v \<mapsto> Some u)) x = Some (Some y) \<longrightarrow>
      y \<in> set (nodes G) \<and> peso G y x \<noteq> None \<and> reach G origem y"
    using inv u edge by (auto simp: search_inv_def)
  ultimately show ?thesis using g unfolding search_inv_def update(4) by simp
qed

lemma search_inv_relax_total:
  assumes "wf_graph G" and "search_inv G origem s" and "neighbors G u = Some vs" and "v \<in> set vs"
  shows "\<exists>s'. relax d u v s = Inr s'"
proof -
  from wf_neighbor [OF assms(1,3,4)] assms(2) have "v \<in> dom (distancias s)"
    by (simp add: search_inv_def)
  then obtain dv where "distancias s v = Some dv" by blast
  then show ?thesis by (auto simp: relax_def Let_def split: option.splits)
qed

lemma search_inv_iteration:
  assumes inv: "search_inv G origem s" and ne: "pq s \<noteq> []"
    and pass: "iteration destino s = Continue s'"
  shows "search_inv G origem s'"
proof -
  obtain d u rest where pop: "heappop (pq s) = ((d, u), rest)" by (metis surj_pair)
  then have rest: "set rest \<subseteq> set (pq s)" using heappop_rest_subset [of "pq s"] by simp
  from heappop_member [OF ne] pop have mem: "(d, u) \<in> set (pq s)" by simp
  with inv have u: "u \<in> set (nodes G)" "reach G origem u" by (auto simp: search_inv_def)
  from iteration_Continue [OF pass pop]
  consider (stale) "s' = s\<lparr>pq := rest\<rparr>"
    | (fresh) vs where
        "relax_all d u vs (s\<lparr>pq := rest, visitados := insert u (visitados s)\<rparr>) = Inr s'"
    by blast
  then show ?thesis
  proof cases
    case stale
    with search_inv_pop(2) [OF inv rest] show ?thesis by simp
  next
    case fresh
    from search_inv_pop(1) [OF inv rest] fresh show ?thesis
      by (rule relax_all_rule) (rule search_inv_relax [OF _ u])
  qed
qed

lemma search_inv_no_raise:
  assumes wf: "wf_graph G" and inv: "search_inv G origem s" and ne: "pq s \<noteq> []"
  shows "iteration destino s \<noteq> Raise e s'"
proof
  assume raised: "iteration destino s = Raise e s'"
  obtain d u rest where pop: "heappop (pq s) = ((d, u), rest)" by (metis surj_pair)
  then have rest: "set rest \<subseteq> set (pq s)" using heappop_rest_subset [of "pq s"] by simp
  from heappop_member [OF ne] pop have mem: "(d, u) \<in> set (pq s)" by simp
  with inv have u: "u \<in> set (nodes G)" "reach G origem u" by (auto simp: search_inv_def)
  from inv have g: "grafo s = G" by (simp add: search_inv_def)
  from node_neighbors [OF u(1)] obtain vs where vs: "neighbors G u = Some vs" by blast
  let ?s2 = "s\<lparr>pq := rest, visitados := insert u (visitados s)\<rparr>"
  from iteration_Raise [OF raised pop] vs g
  have bad: "relax_all d u vs ?s2 = Inl (e, s')" by auto
  have "\<exists>t. relax_all d u vs ?s2 = Inr t"
  proof (rule relax_all_total [where J = "search_inv G origem"])
    show "search_inv G origem ?s2" by (rule search_inv_pop(1) [OF inv rest])
  next
    fix v t t'
    assume "search_inv G origem t" "relax d u v t = Inr t'"
    then show "search_inv G origem t'" by (rule search_inv_relax [OF _ u])
  next
    fix v t
    assume "v \<in> set vs" "search_inv G origem t"
    then show "\<exists>t'. relax d u v t = Inr t'"
      using search_inv_relax_total [OF wf _ vs] by blast
  qed
  with bad show False by simp
qed

text \<open>The search loop on a well-formed graph, from a known origin: it raises nothing, and the
  invariant holds of the state it returns.\<close>

lemma loop_search_inv:
  assumes wf: "wf_graph G" and o: "origem \<in> set (nodes G)"
  shows "\<exists>s'. loop destino (init G origem) = Inr s' \<and> search_inv G origem s'"
proof -
  have "\<exists>t. search_inv G origem t \<and>
    (pq t = [] \<and> loop destino (init G origem) = Inr t \<or>
     pq t \<noteq> [] \<and> (\<exists>s'. iteration destino t = Break s' \<and> loop destino (init G origem) = Inr s') \<or>
     pq t \<noteq> [] \<and> (\<exists>e s'. iteration destino t = Raise e s' \<and>
        loop destino (init G origem) = Inl (e, s')))"
  proof (rule loop_exit)
    show "search_inv G origem (init G origem)" by (rule search_inv_init [OF o])
  next
    fix t t'
    assume "search_inv G origem t" "pq t \<noteq> []" "iteration destino t = Continue t'"
    then show "search_inv G origem t'" by (rule search_inv_iteration)
  qed
  then obtain t where t: "search_inv G origem t"
    "pq t = [] \<and> loop destino (init G origem) = Inr t \<or>
     pq t \<noteq> [] \<and> (\<exists>s'. iteration destino t = Break s' \<and> loop destino (init G origem) = Inr s') \<or>
     pq t \<noteq> [] \<and> (\<exists>e s'. iteration destino t = Raise e s' \<and>
        loop destino (init G origem) = Inl (e, s'))"
    by blast
  from t(2) search_inv_no_raise [OF wf t(1)]
  consider (empty) "loop destino (init G origem) = Inr t"
    | (break) s' where "pq t \<noteq> []" "iteration destino t = Break s'"
        "loop destino (init G origem) = Inr s'"
    by blast
  then show ?thesis
  proof cases
    case empty
    with t(1) show ?thesis by blast
  next
    case break
    obtain d u rest where pop: "heappop (pq t) = ((d, u), rest)" by (metis surj_pair)
    then have rest: "set rest \<subseteq> set (pq t)" using heappop_rest_subset [of "pq t"] by simp
    from iteration_Break [OF break(2) pop] have "s' = t\<lparr>pq := rest\<rparr>" by simp
    with search_inv_pop(2) [OF t(1) rest] break(3) show ?thesis by blast
  qed
qed


section \<open>What a call leaves of the graph\<close>

lemma iteration_frame:
  assumes "pq s \<noteq> []"
    and "iteration destino s = Continue s' \<or> iteration destino s = Break s' \<or>
         iteration destino s = Raise e s'"
  shows "grafo s' = grafo s"
proof -
  obtain d u rest where pop: "heappop (pq s) = ((d, u), rest)" by (metis surj_pair)
  let ?s2 = "s\<lparr>pq := rest, visitados := insert u (visitados s)\<rparr>"
  from assms(2) consider (continue) "iteration destino s = Continue s'"
    | (break) "iteration destino s = Break s'" | (raise) "iteration destino s = Raise e s'"
    by blast
  then show ?thesis
  proof cases
    case continue
    from iteration_Continue [OF this pop]
    have "s' = s\<lparr>pq := rest\<rparr> \<or> (\<exists>vs. relax_all d u vs ?s2 = Inr s')" by blast
    then show ?thesis by (auto dest: relax_all_frame)
  next
    case break
    from iteration_Break [OF this pop] show ?thesis by simp
  next
    case raise
    from iteration_Raise [OF this pop]
    have "s' = ?s2 \<or> (\<exists>vs. relax_all d u vs ?s2 = Inl (e, s'))" by blast
    then show ?thesis by (auto dest: relax_all_raise_frame)
  qed
qed

lemma loop_frame:
  assumes "loop destino s = Inr s' \<or> loop destino s = Inl (e, s')"
  shows "grafo s' = grafo s"
proof -
  have "\<exists>t. grafo t = grafo s \<and>
    (pq t = [] \<and> loop destino s = Inr t \<or>
     pq t \<noteq> [] \<and> (\<exists>s'. iteration destino t = Break s' \<and> loop destino s = Inr s') \<or>
     pq t \<noteq> [] \<and> (\<exists>e s'. iteration destino t = Raise e s' \<and> loop destino s = Inl (e, s')))"
  proof (rule loop_exit)
    show "grafo s = grafo s" by simp
  next
    fix t t'
    assume "grafo t = grafo s" "pq t \<noteq> []" "iteration destino t = Continue t'"
    then show "grafo t' = grafo s" using iteration_frame [of t destino t'] by simp
  qed
  then obtain t where t: "grafo t = grafo s"
    "pq t = [] \<and> loop destino s = Inr t \<or>
     pq t \<noteq> [] \<and> (\<exists>s'. iteration destino t = Break s' \<and> loop destino s = Inr s') \<or>
     pq t \<noteq> [] \<and> (\<exists>e s'. iteration destino t = Raise e s' \<and> loop destino s = Inl (e, s'))"
    by blast
  from t(2) assms have "s' = t \<or> pq t \<noteq> [] \<and>
      (iteration destino t = Break s' \<or> iteration destino t = Raise e s')"
    by auto
  with t(1) show ?thesis using iteration_frame [of t destino s' e] by auto
qed

lemma finish_frame:
  assumes "finish origem destino s = Some (Inl (e, s')) \<or>
           finish origem destino s = Some (Inr (r, s'))"
  shows "s' = s"
proof -
  have "s' = s" if "reconstruct s (Some destino) [] = Some (Inl (e, s'))"
    using reconstruct_result [OF that] by simp
  then show ?thesis using assms unfolding finish_def
    by (auto split: option.splits if_splits sum.splits)
qed

lemma dijkstra_run_frame:
  assumes "dijkstra_run G origem destino = Some (Inl (e, s)) \<or>
           dijkstra_run G origem destino = Some (Inr (r, s))"
  shows "grafo s = G"
proof (cases "loop destino (init G origem)")
  case (Inl a)
  with assms have "loop destino (init G origem) = Inl (e, s)" by (simp add: dijkstra_run_def)
  then have "grafo s = grafo (init G origem)" using loop_frame by blast
  then show ?thesis by (simp add: init_def)
next
  case (Inr t)
  with assms have "finish origem destino t = Some (Inl (e, s)) \<or>
      finish origem destino t = Some (Inr (r, s))"
    by (simp add: dijkstra_run_def)
  then have "s = t" by (rule finish_frame)
  moreover from Inr have "grafo t = grafo (init G origem)" using loop_frame by blast
  ultimately show ?thesis by (simp add: init_def)
qed

lemma run_of_result:
  assumes "dijkstra G origem destino = Some (Inr (caminho, custo))"
  shows "\<exists>s. dijkstra_run G origem destino = Some (Inr ((caminho, custo), s))"
proof -
  from assms obtain z where z: "dijkstra_run G origem destino = Some z"
    "map_sum fst fst z = Inr (caminho, custo)"
    by (auto simp: dijkstra_def)
  from z(2) obtain r s where "z = Inr (r, s)" by (cases z) auto
  with z show ?thesis by auto
qed

section \<open>The invariant of Dijkstra's algorithm\<close>


lemma dijkstra_invD:
  assumes "dijkstra_inv G origem X s"
  shows inv_grafo: "grafo s = G"
    and inv_closed: "X \<subseteq> visitados s"
    and inv_origin: "distancias s origem = Some (Finite 0)"
    and inv_queue: "(e, v) \<in> set (pq s) \<Longrightarrow>
           0 \<le> e \<and> (\<exists>c. distancias s v = Some (Finite c) \<and> c \<le> e)"
    and inv_waiting: "v \<notin> visitados s \<Longrightarrow> distancias s v = Some (Finite c) \<Longrightarrow>
           (c, v) \<in> set (pq s)"
    and inv_settled: "x \<in> visitados s \<Longrightarrow>
           \<exists>c. distancias s x = Some (Finite c) \<and> (\<forall>e v. (e, v) \<in> set (pq s) \<longrightarrow> c \<le> e)"
    and inv_relaxed: "x \<in> X \<Longrightarrow> peso G x v = Some w \<Longrightarrow> distancias s x = Some (Finite c) \<Longrightarrow>
           \<exists>c'. distancias s v = Some (Finite c') \<and> c' \<le> c + w"
    and inv_chain: "distancias s v = Some (Finite c) \<Longrightarrow>
           \<exists>p. pred_chain (predecessores s) v p \<and> hd p = origem \<and> walk G p \<and>
               walk_cost G p = c \<and> set (butlast p) \<subseteq> visitados s"
    and inv_unlabelled: "distancias s v = Some Infinity \<Longrightarrow> predecessores s v = Some None"
  using assms unfolding dijkstra_inv_def by blast+















section \<open>Facts about the example graphs\<close>

lemma wf_graph_exemplo: "wf_graph G_exemplo"
  by (simp add: wf_graph_def G_exemplo_def nodes_def)


lemma exemplo_0_3: "dijkstra G_exemplo 0 3 = Some (Inr ([0, 1, 3], Finite 2))"
  by code_simp

text \<open>Node 4 of the example has no edge: a path that ends there starts there.\<close>

lemma exemplo_isolated:
  "connected_pairs G p \<Longrightarrow> G = G_exemplo \<Longrightarrow> p \<noteq> [] \<Longrightarrow> last p = 4 \<Longrightarrow> hd p = 4"
proof (induction G p rule: connected_pairs.induct)
  case (1 G u v p)
  then have "v = 4" by simp
  with 1 have "edge_data G_exemplo u 4 \<noteq> None" by simp
  then show ?case by (simp add: edge_data_def G_exemplo_def split: if_splits)
qed simp_all

lemma wf_graph_negativo: "wf_graph G_negativo"
  by (simp add: wf_graph_def G_negativo_def nodes_def)

text \<open>On \<open>G_negativo\<close>, from 0 to 2: node 1 is reached over the edge of length \<open>-1\<close>, and
  when it is visited the same edge improves the label of the origin, which gets 1 as its
  predecessor. The path is then followed from 2 to 1 to 0 to 1 and so on.\<close>

lemma negativo_predecessors:
  "case loop 2 (init G_negativo 0) of
     Inl e \<Rightarrow> False
   | Inr s \<Rightarrow> predecessores s 2 = Some (Some 1) \<and> predecessores s 1 = Some (Some 0) \<and>
              predecessores s 0 = Some (Some 1)"
  by code_simp

section \<open>The claims\<close>

subsection \<open>C1: the cost that is returned is the least\<close>




subsection \<open>C2: the length used between two nodes with parallel edges\<close>




subsection \<open>C3: origin and destination the same node\<close>

text \<open>
  Claim C3. For every graph and every node \<open>n\<close> of it, \<^verbatim>\<open>dijkstra(G, n, n)\<close> returns the
  single-node path \<open>[n]\<close> with cost 0.
\<close>

theorem dijkstra_same_node:
  assumes "n \<in> set (nodes G)"
  shows "dijkstra G n n = Some (Inr ([n], Finite 0))"
proof -
  let ?s = "(init G n)\<lparr>pq := []\<rparr>"
  have p: "predecessores ?s n = Some None"
    using assms by (simp add: init_def init_lookup)
  then have "pred_chain (predecessores ?s) n [n]" by (rule pred_chain.root)
  from reconstruct_chain [OF this, of "[]"]
  have "reconstruct ?s (Some n) [] = Some (Inr [n])" by simp
  moreover have "distancias ?s n = Some (Finite 0)" by (simp add: init_def)
  ultimately have "finish n n ?s = Some (Inr (([n], Finite 0), ?s))"
    using p by (simp add: finish_def)
  then show ?thesis by (simp add: dijkstra_def dijkstra_run_def loop_first_break)
qed

theorem dijkstra_same_node_witness:
  "2 \<in> set (nodes G_exemplo) \<and> dijkstra G_exemplo 2 2 = Some (Inr ([2], Finite 0))"
proof -
  have h: "2 \<in> set (nodes G_exemplo)" by (simp add: nodes_def G_exemplo_def)
  from dijkstra_same_node [OF h] h show ?thesis by simp
qed

subsection \<open>C4: no route\<close>

text \<open>
  Claim C4. For every graph and every origin and destination that are nodes of it, the
  destination distinct from the origin and not reachable from it, \<^verbatim>\<open>dijkstra\<close> returns the
  empty path with cost infinity, as a result and not as an error.
\<close>

theorem dijkstra_unreachable:
  assumes "wf_graph G" and "origem \<in> set (nodes G)" and "destino \<in> set (nodes G)"
    and "destino \<noteq> origem" and "\<not> reachable G origem destino"
  shows "dijkstra G origem destino = Some (Inr ([], Infinity))"
proof -
  from loop_search_inv [OF assms(1,2)] obtain s where
    s: "loop destino (init G origem) = Inr s" "search_inv G origem s" by blast
  from s(2) assms(3) have "destino \<in> dom (predecessores s)" by (simp add: search_inv_def)
  then obtain q where q: "predecessores s destino = Some q" by blast
  have "q = None"
  proof (cases q)
    case (Some u)
    with q s(2) have "reach G origem u" "peso G u destino \<noteq> None"
      by (auto simp: search_inv_def)
    then have "reach G origem destino" by (rule reach_step)
    with assms(5) show ?thesis by (auto dest: reach_reachable)
  qed simp
  with q assms(4) have "finish origem destino s = Some (Inr (([], Infinity), s))"
    by (simp add: finish_def)
  with s(1) show ?thesis by (simp add: dijkstra_def dijkstra_run_def)
qed

theorem dijkstra_unreachable_witness:
  "wf_graph G_exemplo \<and> 0 \<in> set (nodes G_exemplo) \<and> 4 \<in> set (nodes G_exemplo) \<and>
   \<not> reachable G_exemplo 0 4 \<and> dijkstra G_exemplo 0 4 = Some (Inr ([], Infinity))"
proof -
  have n: "0 \<in> set (nodes G_exemplo)" "4 \<in> set (nodes G_exemplo)"
    by (simp_all add: nodes_def G_exemplo_def)
  have u: "\<not> reachable G_exemplo 0 4"
    unfolding reachable_def by (auto dest: exemplo_isolated)
  from dijkstra_unreachable [OF wf_graph_exemplo n _ u] wf_graph_exemplo n u
  show ?thesis by simp
qed

subsection \<open>C5: unknown nodes\<close>

text \<open>
  Claim C5, as amended. When the origin or the destination is not a node of the graph,
  \<^verbatim>\<open>dijkstra\<close> returns nothing and raises: NetworkX's \<^verbatim>\<open>NetworkXError\<close> for the origin,
  from \<^verbatim>\<open>G.neighbors\<close>, when the origin is unknown and is not the destination; otherwise
  Python's \<^verbatim>\<open>KeyError\<close> for the destination, from \<^verbatim>\<open>predecessores[destino]\<close>. The source
  has no error of its own for an unknown node.
\<close>

theorem dijkstra_unknown_node:
  assumes "wf_graph G" and "origem \<notin> set (nodes G) \<or> destino \<notin> set (nodes G)"
  shows "dijkstra G origem destino =
     Some (Inl (if origem \<notin> set (nodes G) \<and> origem \<noteq> destino
                then NetworkXError origem else KeyError destino))"
proof -
  consider (origin) "origem \<notin> set (nodes G)" "origem \<noteq> destino"
    | (same) "origem = destino" "destino \<notin> set (nodes G)"
    | (destination) "origem \<in> set (nodes G)" "destino \<notin> set (nodes G)"
    using assms(2) by blast
  then show ?thesis
  proof cases
    case origin
    have pop: "heappop (pq (init G origem)) = ((0, origem), [])"
      by (simp add: init_def heappop_single)
    have "map_of G origem = None"
      using origin(1) by (simp add: nodes_def map_of_eq_None_iff)
    then have "neighbors (grafo (init G origem)) origem = None"
      by (simp add: init_def neighbors_def)
    with iteration_cases [OF pop, of destino] origin(2)
    have "iteration destino (init G origem) =
        Raise (NetworkXError origem) ((init G origem)\<lparr>pq := [], visitados := {origem}\<rparr>)"
      by (simp add: init_def)
    moreover have "pq (init G origem) \<noteq> []" by (simp add: init_def)
    ultimately have "loop destino (init G origem) =
        Inl (NetworkXError origem, (init G origem)\<lparr>pq := [], visitados := {origem}\<rparr>)"
      by (simp add: loop.simps [of destino "init G origem"])
    with origin show ?thesis by (simp add: dijkstra_def dijkstra_run_def)
  next
    case same
    have "predecessores ((init G destino)\<lparr>pq := []\<rparr>) destino = None"
      using same(2) by (simp add: init_def init_lookup_None)
    then have "finish destino destino ((init G destino)\<lparr>pq := []\<rparr>) =
        Some (Inl (KeyError destino, (init G destino)\<lparr>pq := []\<rparr>))"
      by (simp add: finish_def)
    with same show ?thesis by (simp add: dijkstra_def dijkstra_run_def loop_first_break)
  next
    case destination
    from loop_search_inv [OF assms(1) destination(1)] obtain s where
      s: "loop destino (init G origem) = Inr s" "search_inv G origem s" by blast
    from s(2) destination(2) have "destino \<notin> dom (predecessores s)"
      by (simp add: search_inv_def)
    then have "finish origem destino s = Some (Inl (KeyError destino, s))"
      by (auto simp: finish_def split: option.splits)
    with s(1) destination show ?thesis by (simp add: dijkstra_def dijkstra_run_def)
  qed
qed

theorem dijkstra_unknown_node_witness:
  "wf_graph G_exemplo \<and> 9 \<notin> set (nodes G_exemplo) \<and>
   dijkstra G_exemplo 0 9 = Some (Inl (KeyError 9))"
proof -
  have n: "0 \<in> set (nodes G_exemplo)" "9 \<notin> set (nodes G_exemplo)"
    by (simp_all add: nodes_def G_exemplo_def)
  from dijkstra_unknown_node [OF wf_graph_exemplo, of 0 9] wf_graph_exemplo n
  show ?thesis by simp
qed

text \<open>
  Counterexample to claim C5 as stated: the two ways of giving an unknown node end in two different
  exceptions, one of Python and one of NetworkX, and neither is an error \<^verbatim>\<open>UnknownNode\<close>.
  With 7 not a node of the example, \<^verbatim>\<open>dijkstra(G, 7, 0)\<close> raises \<^verbatim>\<open>NetworkXError\<close> and
  \<^verbatim>\<open>dijkstra(G, 0, 7)\<close> raises \<^verbatim>\<open>KeyError\<close>.
\<close>

theorem dijkstra_unknown_node_counterexample:
  "dijkstra G_exemplo 7 0 = Some (Inl (NetworkXError 7)) \<and>
   dijkstra G_exemplo 0 7 = Some (Inl (KeyError 7))"
  by code_simp

subsection \<open>C6: lengths are never checked\<close>

text \<open>
  Claim C6, as amended. \<^verbatim>\<open>dijkstra\<close> checks no length. On a well-formed graph, for an origin
  and a destination that are nodes of it, the call raises no error whatever the lengths are,
  negative ones included: it returns a result computed from the lengths as they are, or it
  does not return.
\<close>

theorem dijkstra_never_rejects_lengths:
  assumes "wf_graph G" and "origem \<in> set (nodes G)" and "destino \<in> set (nodes G)"
  shows "dijkstra G origem destino \<noteq> Some (Inl e)"
proof -
  from loop_search_inv [OF assms(1,2)] obtain s where
    s: "loop destino (init G origem) = Inr s" "search_inv G origem s" by blast
  from s(2) have dom: "dom (predecessores s) = set (nodes G)" "dom (distancias s) = set (nodes G)"
    by (simp_all add: search_inv_def)
  from s(2) dom have closed:
    "\<forall>v u. predecessores s v = Some (Some u) \<longrightarrow> u \<in> dom (predecessores s)"
    by (simp add: search_inv_def)
  from dom assms(3) obtain q c where q: "predecessores s destino = Some q"
    and c: "distancias s destino = Some c" by blast
  have "\<exists>l. r = Inr l" if "reconstruct s (Some destino) [] = Some r" for r
    using that closed by (rule reconstruct_no_raise) (use dom assms(3) in simp)
  then have returns: "finish origem destino s \<noteq> Some (Inl a)" for a
    using q c by (auto simp: finish_def split: option.splits sum.splits)
  show ?thesis
  proof
    assume "dijkstra G origem destino = Some (Inl e)"
    with s(1) obtain z where z: "finish origem destino s = Some z" "map_sum fst fst z = Inl e"
      by (auto simp: dijkstra_def dijkstra_run_def)
    from z(2) obtain a where "z = Inl a" by (cases z) auto
    with z(1) returns show False by simp
  qed
qed

theorem dijkstra_never_rejects_lengths_witness:
  "wf_graph G_negativo \<and> 0 \<in> set (nodes G_negativo) \<and> 1 \<in> set (nodes G_negativo) \<and>
   dijkstra G_negativo 0 1 \<noteq> Some (Inl (KeyError 1))"
proof -
  have n: "0 \<in> set (nodes G_negativo)" "1 \<in> set (nodes G_negativo)"
    by (simp_all add: nodes_def G_negativo_def)
  from dijkstra_never_rejects_lengths [OF wf_graph_negativo n, of "KeyError 1"]
    wf_graph_negativo n
  show ?thesis by simp
qed

text \<open>
  Counterexample to claim C6 as stated: the graph \<open>G_negativo\<close> has an edge of length \<open>-1\<close>, and the
  query from 0 to 1 over that edge is not aborted: it returns the path and the negative cost.
\<close>

theorem dijkstra_invalid_weight_counterexample:
  "\<not> nonneg_lengths G_negativo \<and>
   dijkstra G_negativo 0 1 = Some (Inr ([0, 1], Finite (- 1)))"
proof -
  have "\<not> nonneg_lengths G_negativo"
    by (simp add: nonneg_lengths_def G_negativo_def edge_length_def)
  moreover have "dijkstra G_negativo 0 1 = Some (Inr ([0, 1], Finite (- 1)))"
    by code_simp
  ultimately show ?thesis by simp
qed

text \<open>On the same graph the query from 0 to 2 is not aborted either: it does not return.\<close>

lemma dijkstra_negative_no_return: "dijkstra G_negativo 0 2 = None"
proof -
  from negativo_predecessors obtain s where s: "loop 2 (init G_negativo 0) = Inr s"
    "predecessores s 2 = Some (Some 1)" "predecessores s 1 = Some (Some 0)"
    "predecessores s 0 = Some (Some 1)"
    by (auto split: sum.splits)
  from reconstruct_cycle [OF s(3,4)] have "reconstruct s (Some 1) [2] = None" .
  with s(2) have "reconstruct s (Some 2) [] = None"
    by (simp add: reconstruct.simps [of s "Some 2"])
  with s(2) have "finish 0 2 s = None" by (simp add: finish_def)
  with s(1) show ?thesis by (simp add: dijkstra_def dijkstra_run_def)
qed

subsection \<open>C7: the path that is returned\<close>




text \<open>On the directed graph \<open>G_dirigido\<close> the call returns, and the cost it returns is not
  the cost of the path it returns: node 1 is visited with the label 1 and gives node 3 the
  label 11; the negative edge then lowers the label of node 1 and makes 2 its predecessor.
  So the equality of the returned cost and the cost of the returned path needs its
  hypothesis on the lengths, directed graphs being graphs of this model.\<close>

lemma dijkstra_negative_cost_mismatch:
  "dijkstra G_dirigido 0 3 = Some (Inr ([0, 2, 1, 3], Finite 11)) \<and>
   walk_cost G_dirigido [0, 2, 1, 3] = 5"
proof -
  have "dijkstra G_dirigido 0 3 = Some (Inr ([0, 2, 1, 3], Finite 11))" by code_simp
  moreover have "walk_cost G_dirigido [0, 2, 1, 3] = 5"
    by (simp add: peso_def edge_data_def edge_length_def G_dirigido_def)
  ultimately show ?thesis by simp
qed

subsection \<open>C8: the same call twice\<close>

text \<open>
  Claim C8. Two calls with the same graph, origin and destination return the same cost: the
  second call, made on the graph as the first call left it, returns the cost the first call
  returned.
\<close>

theorem dijkstra_repeatable:
  assumes "dijkstra_run G origem destino = Some (Inr ((caminho1, custo1), s1))"
    and "dijkstra_run (grafo s1) origem destino = Some (Inr ((caminho2, custo2), s2))"
  shows "custo2 = custo1"
proof -
  from assms(1) have "grafo s1 = G" using dijkstra_run_frame by blast
  with assms show ?thesis by simp
qed

theorem dijkstra_repeatable_witness:
  "\<exists>s1 s2. dijkstra_run G_exemplo 0 3 = Some (Inr (([0, 1, 3], Finite 2), s1)) \<and>
     dijkstra_run (grafo s1) 0 3 = Some (Inr (([0, 1, 3], Finite 2), s2)) \<and>
     Finite 2 = Finite 2"
proof -
  from run_of_result [OF exemplo_0_3] obtain s1 where
    s1: "dijkstra_run G_exemplo 0 3 = Some (Inr (([0, 1, 3], Finite 2), s1))" by blast
  then have "grafo s1 = G_exemplo" using dijkstra_run_frame by blast
  with s1 have s2: "dijkstra_run (grafo s1) 0 3 = Some (Inr (([0, 1, 3], Finite 2), s1))"
    by simp
  from dijkstra_repeatable [OF s1 s2] s1 s2 show ?thesis by blast
qed

subsection \<open>C9: the graph is only read\<close>

text \<open>
  Claim C9. A call to \<^verbatim>\<open>dijkstra\<close> leaves the graph as it was: whether the call raises or
  returns, the graph of the state it ends in is the graph it was given. The distance labels,
  the predecessors, the visited set and the heap are built by \<open>init\<close> inside the call, from
  the graph and the origin alone.
\<close>

theorem dijkstra_leaves_graph:
  "(dijkstra_run G origem destino = Some (Inl (e, s)) \<longrightarrow> grafo s = G) \<and>
   (dijkstra_run G origem destino = Some (Inr (r, s)) \<longrightarrow> grafo s = G) \<and>
   grafo (init G origem) = G"
  using dijkstra_run_frame [of G origem destino e s r] by (simp add: init_def)

theorem dijkstra_leaves_graph_witness:
  "\<exists>r s. dijkstra_run G_exemplo 0 3 = Some (Inr (r, s)) \<and> grafo s = G_exemplo"
proof -
  from run_of_result [OF exemplo_0_3] obtain s where
    s: "dijkstra_run G_exemplo 0 3 = Some (Inr (([0, 1, 3], Finite 2), s))" by blast
  with dijkstra_leaves_graph [of G_exemplo 0 3 "KeyError 0" s "([0, 1, 3], Finite 2)"]
  show ?thesis by blast
qed

subsection \<open>C10: an edge without length\<close>

text \<open>
  Claim C10. When the data of the edge between the current node and a neighbour hold no
  \<^verbatim>\<open>'length'\<close>, neither under key 0 nor as an attribute of the edge itself, the relaxation of
  that neighbour raises nothing and changes nothing, and the loop over the neighbours goes on
  with the next one, as if the edge were not there.
\<close>

theorem relax_skips_missing_length:
  assumes "edge_data (grafo s) no_atual vizinho = Some e"
    and "length_key0 e = None" and "length_attr e = None"
  shows "relax dist_atual no_atual vizinho s = Inr s \<and>
     relax_all dist_atual no_atual (vizinho # vs) s = relax_all dist_atual no_atual vs s"
  using assms by (simp add: relax_def peso_def edge_length_def)

theorem relax_skips_missing_length_witness:
  "edge_data (grafo (init G_sem_peso 0)) 0 1 = Some (Simple None) \<and>
   relax 0 0 1 (init G_sem_peso 0) = Inr (init G_sem_peso 0) \<and>
   relax_all 0 0 [1, 2] (init G_sem_peso 0) = relax_all 0 0 [2] (init G_sem_peso 0)"
proof -
  have e: "edge_data (grafo (init G_sem_peso 0)) 0 1 = Some (Simple None)"
    by (simp add: init_def G_sem_peso_def edge_data_def)
  from relax_skips_missing_length [OF e, of 0 "[2]"] e show ?thesis by simp
qed

end
